theory Spec2Isabelle
  imports Main
begin

section \<open>Keyword-argument extraction: \<^verbatim>\<open>src/main/c/cext/args.c\<close>\<close>

subsection \<open>Values, mappings and faults\<close>

text \<open>
  Ruby objects that a Hash can hold as a key or as a value. Only the distinction between
  symbols and everything else matters to \<^verbatim>\<open>args.c\<close> (\<^verbatim>\<open>Check_Type(k, T_SYMBOL)\<close>).
\<close>

datatype obj = RNil | RSymbol string | RFixnum int | RString string

text \<open>
  A C \<^verbatim>\<open>VALUE\<close>: either the sentinel \<^verbatim>\<open>Qundef\<close>, which is never a Ruby object, or an
  object (\<^verbatim>\<open>Qnil\<close> is \<open>Obj RNil\<close>).
\<close>

datatype VALUE = Qundef | Obj obj

text \<open>An \<^verbatim>\<open>ID\<close> is a symbol, given by its name; used as a \<^verbatim>\<open>VALUE\<close> it is the symbol object.\<close>

type_synonym ID = string

text \<open>
  The Hash of the host is not part of \<^verbatim>\<open>args.c\<close>. The spec describes it as a mutable
  associative container with lookup, deletion by key, a size query and the enumeration of
  the remaining keys in insertion order: here an association list in insertion order,
  whose keys are distinct in every real Hash.
\<close>

type_synonym rhash = "(obj \<times> obj) list"

text \<open>
  Modelled from the spec: \<^verbatim>\<open>rb_hash_lookup2\<close> is missing; it is the lookup of the mapping,
  giving the default when the key has no entry.
\<close>

definition rb_hash_lookup2 :: "rhash \<Rightarrow> obj \<Rightarrow> VALUE \<Rightarrow> VALUE" where
  "rb_hash_lookup2 h k dflt = (case map_of h k of None \<Rightarrow> dflt | Some v \<Rightarrow> Obj v)"

text \<open>
  Modelled from the spec: \<^verbatim>\<open>rb_hash_delete\<close> is missing; it is the deletion by key of the
  mapping (the value it returns is not used by \<^verbatim>\<open>args.c\<close>).
\<close>

definition rb_hash_delete :: "rhash \<Rightarrow> obj \<Rightarrow> rhash" where
  "rb_hash_delete h k = filter (\<lambda>e. fst e \<noteq> k) h"

text \<open>Modelled from the spec: \<^verbatim>\<open>RHASH_SIZE\<close> is missing; it is the size query of the mapping.\<close>

definition RHASH_SIZE :: "rhash \<Rightarrow> int" where
  "RHASH_SIZE h = int (length h)"

text \<open>
  Modelled from the spec: \<^verbatim>\<open>rb_hash_keys\<close> is missing; it is the enumeration of the keys
  of the mapping in insertion order.
\<close>

definition rb_hash_keys :: "rhash \<Rightarrow> obj list" where
  "rb_hash_keys h = map fst h"

text \<open>
  A raised Ruby exception, and the other ways in which a call does not return. The
  last four are not Ruby exceptions: a store through the null \<^verbatim>\<open>values\<close> pointer, an
  access outside \<^verbatim>\<open>table\<close>, \<^verbatim>\<open>values\<close> or the key array, a signed overflow of
  \<^verbatim>\<open>required + optional\<close>, and a Hash operation applied to \<^verbatim>\<open>Qnil\<close> (the spec says
  nothing about the Hash operations on the null mapping).
\<close>

datatype exception = ArgError string | TypeError

datatype fault = Raised exception | NullWrite | OutOfBounds | SignedOverflow | NilMapping

text \<open>
  The two objects that a call reads and mutates: \<^verbatim>\<open>keyword_hash\<close> (\<open>None\<close> is \<^verbatim>\<open>Qnil\<close>)
  and the buffer behind \<^verbatim>\<open>values\<close> (\<open>None\<close> is the null pointer).
\<close>

record kw_state =
  kw_hash :: "rhash option"
  kw_values :: "VALUE list option"

subsection \<open>C arrays and C integers\<close>

definition array_at :: "'a list \<Rightarrow> int \<Rightarrow> 'a option" where
  "array_at xs i = (if 0 \<le> i \<and> i < int (length xs) then Some (xs ! nat i) else None)"

text \<open>\<^verbatim>\<open>values[i] = v\<close>.\<close>

definition store_value :: "kw_state \<Rightarrow> int \<Rightarrow> VALUE \<Rightarrow> fault + kw_state" where
  "store_value s i v =
     (case kw_values s of
        None \<Rightarrow> Inl NullWrite
      | Some buf \<Rightarrow>
          if 0 \<le> i \<and> i < int (length buf)
          then Inr (s\<lparr>kw_values := Some (buf[nat i := v])\<rparr>)
          else Inl OutOfBounds)"

definition INT_MAX :: int where
  "INT_MAX = 2147483647"

definition INT_MIN :: int where
  "INT_MIN = - 2147483648"

text \<open>The sum of two \<^verbatim>\<open>int\<close>s, where it is defined.\<close>

definition int_add :: "int \<Rightarrow> int \<Rightarrow> int option" where
  "int_add a b = (if INT_MIN \<le> a + b \<and> a + b \<le> INT_MAX then Some (a + b) else None)"

text \<open>The cast \<^verbatim>\<open>(unsigned int) x\<close>.\<close>

definition unsigned_int :: "int \<Rightarrow> int" where
  "unsigned_int x = x mod 2 ^ 32"

subsection \<open>\<^verbatim>\<open>rb_keyword_error_new\<close> and \<^verbatim>\<open>rb_keyword_error\<close>\<close>

text \<open>
  The \<^verbatim>\<open>while (1)\<close> loop of \<^verbatim>\<open>rb_keyword_error_new\<close>, entered only when the array is
  not empty: append the name of key \<open>i\<close>, leave when \<open>++i >= len\<close>, else append the
  separator and go on.
\<close>

function keys_loop :: "obj list \<Rightarrow> int \<Rightarrow> string \<Rightarrow> fault + string" where
  "keys_loop keys i error_message =
     (case array_at keys i of
        None \<Rightarrow> Inl OutOfBounds
      | Some k \<Rightarrow>
          (case k of
             RSymbol name \<Rightarrow>
               if i + 1 \<ge> int (length keys) then Inr (error_message @ name)
               else keys_loop keys (i + 1) (error_message @ name @ '', '')
           | _ \<Rightarrow> Inl (Raised TypeError)))"
  by pat_completeness auto
termination
  by (relation "measure (\<lambda>(keys, i, m). nat (int (length keys) - i))") auto

declare keys_loop.simps [simp del]

definition rb_keyword_error_new :: "string \<Rightarrow> obj list \<Rightarrow> fault + exception" where
  "rb_keyword_error_new error keys =
     (let len = int (length keys);
          error_message = error @ '' keyword'' @ take (if len > 1 then 1 else 0) ''s''
      in if len > 0
         then (case keys_loop keys 0 (error_message @ '': '') of
                 Inl f \<Rightarrow> Inl f
               | Inr m \<Rightarrow> Inr (ArgError m))
         else Inr (ArgError error_message))"

text \<open>\<^verbatim>\<open>rb_keyword_error\<close> never returns: the value is the fault that leaves the call.\<close>

definition rb_keyword_error :: "string \<Rightarrow> obj list \<Rightarrow> fault" where
  "rb_keyword_error error keys =
     (case rb_keyword_error_new error keys of Inl f \<Rightarrow> f | Inr e \<Rightarrow> Raised e)"

subsection \<open>\<^verbatim>\<open>unknown_keyword_error\<close>\<close>

function unknown_loop :: "ID list \<Rightarrow> int \<Rightarrow> int \<Rightarrow> rhash \<Rightarrow> rhash \<times> fault option" where
  "unknown_loop table keywords i h =
     (if i < keywords
      then (case array_at table i of
              None \<Rightarrow> (h, Some OutOfBounds)
            | Some key \<Rightarrow> unknown_loop table keywords (i + 1) (rb_hash_delete h (RSymbol key)))
      else (h, None))"
  by pat_completeness auto
termination
  by (relation "measure (\<lambda>(table, keywords, i, h). nat (keywords - i))") auto

declare unknown_loop.simps [simp del]

text \<open>Never returns: the Hash as it is left, and the fault.\<close>

definition unknown_keyword_error :: "rhash \<Rightarrow> ID list \<Rightarrow> int \<Rightarrow> rhash \<times> fault" where
  "unknown_keyword_error h table keywords =
     (case unknown_loop table keywords 0 h of
        (h', Some f) \<Rightarrow> (h', f)
      | (h', None) \<Rightarrow> (h', rb_keyword_error ''unknown'' (rb_hash_keys h')))"

subsection \<open>\<^verbatim>\<open>rb_tr_extract_keyword\<close>\<close>

definition rb_tr_extract_keyword :: "kw_state \<Rightarrow> ID \<Rightarrow> kw_state \<times> (fault + VALUE)" where
  "rb_tr_extract_keyword s key =
     (case kw_hash s of
        None \<Rightarrow> (s, Inl NilMapping)
      | Some h \<Rightarrow>
          (let val = rb_hash_lookup2 h (RSymbol key) Qundef
           in (if kw_values s \<noteq> None
               then s\<lparr>kw_hash := Some (rb_hash_delete h (RSymbol key))\<rparr>
               else s,
               Inr val)))"

subsection \<open>\<^verbatim>\<open>rb_get_kwargs\<close>\<close>

text \<open>Lines 46 to 53: the flag \<^verbatim>\<open>rest\<close> and the count \<^verbatim>\<open>optional\<close> after decoding.\<close>

definition decode_optional :: "int \<Rightarrow> bool \<times> int" where
  "decode_optional optional = (if optional < 0 then (True, - 1 - optional) else (False, optional))"

text \<open>
  The first three statements of both loop bodies (lines 56 to 59 and 72 to 75):
  read \<^verbatim>\<open>table[n]\<close>, extract the keyword, and store the value when \<^verbatim>\<open>values\<close> is not null.
\<close>

definition extract_slot :: "ID list \<Rightarrow> int \<Rightarrow> kw_state \<Rightarrow> kw_state \<times> (fault + VALUE)" where
  "extract_slot table n s =
     (case array_at table n of
        None \<Rightarrow> (s, Inl OutOfBounds)
      | Some key \<Rightarrow>
          (case rb_tr_extract_keyword s key of
             (s1, Inl f) \<Rightarrow> (s1, Inl f)
           | (s1, Inr val) \<Rightarrow>
               if kw_values s1 \<noteq> None
               then (case store_value s1 n val of
                       Inl f \<Rightarrow> (s1, Inl f)
                     | Inr s2 \<Rightarrow> (s2, Inr val))
               else (s1, Inr val)))"

text \<open>The loop over the required keys, lines 55 to 68.\<close>

function required_loop :: "ID list \<Rightarrow> int \<Rightarrow> int \<Rightarrow> int \<Rightarrow> kw_state \<Rightarrow> kw_state \<times> (fault + int)" where
  "required_loop table required n extracted s =
     (if n < required
      then (case extract_slot table n s of
              (s1, Inl f) \<Rightarrow> (s1, Inl f)
            | (s1, Inr val) \<Rightarrow>
                if val = Qundef
                then (s1, Inl (rb_keyword_error ''missing'' [RSymbol (table ! nat n)]))
                else required_loop table required (n + 1) (extracted + 1) s1)
      else (s, Inr extracted))"
  by pat_completeness auto
termination
  by (relation "measure (\<lambda>(table, required, n, extracted, s). nat (required - n))") auto

declare required_loop.simps [simp del]

text \<open>The loop over the optional keys, lines 71 to 79; \<open>limit\<close> is \<^verbatim>\<open>required + optional\<close>.\<close>

function optional_loop :: "ID list \<Rightarrow> int \<Rightarrow> int \<Rightarrow> int \<Rightarrow> kw_state \<Rightarrow> kw_state \<times> (fault + int)" where
  "optional_loop table limit m extracted s =
     (if m < limit
      then (case extract_slot table m s of
              (s1, Inl f) \<Rightarrow> (s1, Inl f)
            | (s1, Inr val) \<Rightarrow>
                optional_loop table limit (m + 1)
                  (if val \<noteq> Qundef then extracted + 1 else extracted) s1)
      else (s, Inr extracted))"
  by pat_completeness auto
termination
  by (relation "measure (\<lambda>(table, limit, m, extracted, s). nat (limit - m))") auto

declare optional_loop.simps [simp del]

text \<open>The last loop, lines 88 to 90: it stores without looking at \<^verbatim>\<open>values\<close>.\<close>

function tail_fill :: "int \<Rightarrow> int \<Rightarrow> kw_state \<Rightarrow> kw_state \<times> fault option" where
  "tail_fill limit i s =
     (if i < limit
      then (case store_value s i Qundef of
              Inl f \<Rightarrow> (s, Some f)
            | Inr s1 \<Rightarrow> tail_fill limit (i + 1) s1)
      else (s, None))"
  by pat_completeness auto
termination
  by (relation "measure (\<lambda>(limit, i, s). nat (limit - i))") auto

declare tail_fill.simps [simp del]

text \<open>Lines 70 to 80.\<close>

definition optional_pass :: "ID list \<Rightarrow> int \<Rightarrow> int \<Rightarrow> int \<Rightarrow> kw_state \<Rightarrow> kw_state \<times> (fault + int)" where
  "optional_pass table required optional extracted s =
     (if optional \<noteq> 0 \<and> kw_hash s \<noteq> None
      then (case int_add required optional of
              None \<Rightarrow> (s, Inl SignedOverflow)
            | Some limit \<Rightarrow> optional_loop table limit required extracted s)
      else (s, Inr extracted))"

text \<open>Lines 82 to 86.\<close>

definition rest_check :: "ID list \<Rightarrow> int \<Rightarrow> int \<Rightarrow> bool \<Rightarrow> int \<Rightarrow> kw_state \<Rightarrow> kw_state \<times> fault option" where
  "rest_check table required optional rest extracted s =
     (case kw_hash s of
        None \<Rightarrow> (s, None)
      | Some h \<Rightarrow>
          if \<not> rest
          then (if RHASH_SIZE h > unsigned_int (if kw_values s \<noteq> None then 0 else extracted)
                then (case int_add required optional of
                        None \<Rightarrow> (s, Some SignedOverflow)
                      | Some keywords \<Rightarrow>
                          (case unknown_keyword_error h table keywords of
                             (h', f) \<Rightarrow> (s\<lparr>kw_hash := Some h'\<rparr>, Some f)))
                else (s, None))
          else (s, None))"

text \<open>
  The whole function. The state \<open>s\<close> holds \<^verbatim>\<open>keyword_hash\<close> and the buffer behind
  \<^verbatim>\<open>values\<close>; the result is the state the call leaves behind and either the fault or
  the returned \<^verbatim>\<open>extracted\<close>.
\<close>

definition rb_get_kwargs :: "kw_state \<Rightarrow> ID list \<Rightarrow> int \<Rightarrow> int \<Rightarrow> kw_state \<times> (fault + int)" where
  "rb_get_kwargs s table required optional0 =
     (case decode_optional optional0 of
        (rest, optional) \<Rightarrow>
          (case required_loop table required 0 0 s of
             (s1, Inl f) \<Rightarrow> (s1, Inl f)
           | (s1, Inr extracted1) \<Rightarrow>
               (case optional_pass table required optional extracted1 s1 of
                  (s2, Inl f) \<Rightarrow> (s2, Inl f)
                | (s2, Inr extracted) \<Rightarrow>
                    (case rest_check table required optional rest extracted s2 of
                       (s3, Some f) \<Rightarrow> (s3, Inl f)
                     | (s3, None) \<Rightarrow>
                         (case int_add required optional of
                            None \<Rightarrow> (s3, Inl SignedOverflow)
                          | Some limit \<Rightarrow>
                              (case tail_fill limit extracted s3 of
                                 (s4, Some f) \<Rightarrow> (s4, Inl f)
                               | (s4, None) \<Rightarrow> (s4, Inr extracted)))))))"

subsection \<open>Notions used in the statements\<close>

text \<open>The mapping has an entry for the symbol \<open>key\<close>.\<close>

definition has_key :: "rhash \<Rightarrow> ID \<Rightarrow> bool" where
  "has_key h key = (RSymbol key \<in> set (map fst h))"

text \<open>What a lookup of the symbol \<open>key\<close> in the mapping \<open>h\<close> gives: its value, or \<^verbatim>\<open>Qundef\<close>.\<close>

definition lookup_slot :: "rhash \<Rightarrow> ID \<Rightarrow> VALUE" where
  "lookup_slot h key = (case map_of h (RSymbol key) of None \<Rightarrow> Qundef | Some v \<Rightarrow> Obj v)"

text \<open>The entries of \<open>h\<close> whose key is none of the symbols \<open>ks\<close>, in the order of \<open>h\<close>.\<close>

definition without_keys :: "rhash \<Rightarrow> ID list \<Rightarrow> rhash" where
  "without_keys h ks = filter (\<lambda>e. fst e \<notin> set (map RSymbol ks)) h"

text \<open>How many of the keys \<open>ks\<close> the mapping \<open>h\<close> holds.\<close>

definition present_count :: "rhash \<Rightarrow> ID list \<Rightarrow> nat" where
  "present_count h ks = length (filter (has_key h) ks)"

text \<open>
  The message as the spec words it: the names joined with a comma and a space; the kind,
  the word keyword, an s when there is more than one name, and the colon and the list
  unless the list is empty.
\<close>

fun join_names :: "string list \<Rightarrow> string" where
  "join_names [] = []"
| "join_names [k] = k"
| "join_names (k # ks) = k @ '', '' @ join_names ks"

definition keyword_message :: "string \<Rightarrow> string list \<Rightarrow> string" where
  "keyword_message kind names =
     kind @ '' keyword'' @ (if length names > 1 then ''s'' else []) @
     (if names = [] then [] else '': '' @ join_names names)"

text \<open>The buffer \<open>buf\<close> with \<^verbatim>\<open>Qundef\<close> in the slots from \<open>i\<close> up to \<open>L - 1\<close>.\<close>

definition tail_filled :: "VALUE list \<Rightarrow> nat \<Rightarrow> nat \<Rightarrow> VALUE list" where
  "tail_filled buf i L = map (\<lambda>j. if i \<le> j \<and> j < L then Qundef else buf ! j) [0..<length buf]"

text \<open>The buffer \<open>buf\<close> with the lookups of the first \<open>p\<close> schema keys in the first \<open>p\<close> slots.\<close>

definition filled :: "rhash \<Rightarrow> ID list \<Rightarrow> VALUE list \<Rightarrow> nat \<Rightarrow> VALUE list" where
  "filled h table buf p =
     map (\<lambda>i. if i < p then lookup_slot h (table ! i) else buf ! i) [0..<length buf]"

text \<open>
  The state once the slots before \<open>p\<close> have been extracted from the mapping \<open>h\<close>:
  nothing has changed without a buffer; with a buffer the first \<open>p\<close> schema keys are
  out of the mapping and their lookups are in the buffer.
\<close>

definition after_slots :: "rhash \<Rightarrow> VALUE list option \<Rightarrow> ID list \<Rightarrow> nat \<Rightarrow> kw_state" where
  "after_slots h vs table p =
     (case vs of
        None \<Rightarrow> \<lparr>kw_hash = Some h, kw_values = None\<rparr>
      | Some buf \<Rightarrow>
          \<lparr>kw_hash = Some (without_keys h (take p table)),
           kw_values = Some (filled h table buf p)\<rparr>)"

text \<open>Symbols and their names (\<^verbatim>\<open>rb_sym2str\<close>).\<close>

fun is_symbol :: "obj \<Rightarrow> bool" where
  "is_symbol (RSymbol name) = True"
| "is_symbol _ = False"

fun rb_sym2str :: "obj \<Rightarrow> string" where
  "rb_sym2str (RSymbol name) = name"
| "rb_sym2str _ = []"

text \<open>
  The two keyword errors, told apart by the only thing the raised exception carries, its
  message.
\<close>

definition is_missing_keyword :: "fault + int \<Rightarrow> bool" where
  "is_missing_keyword r =
     (case r of Inl (Raised (ArgError m)) \<Rightarrow> take 15 m = ''missing keyword'' | _ \<Rightarrow> False)"

definition is_unknown_keyword :: "fault + int \<Rightarrow> bool" where
  "is_unknown_keyword r =
     (case r of Inl (Raised (ArgError m)) \<Rightarrow> take 15 m = ''unknown keyword'' | _ \<Rightarrow> False)"

section \<open>Auxiliary lemmas\<close>

lemma array_at_nat: "i < length xs \<Longrightarrow> array_at xs (int i) = Some (xs ! i)"
  by (simp add: array_at_def)

lemma without_keys_Nil: "without_keys h [] = h"
  by (simp add: without_keys_def)

lemma delete_without_keys:
  "rb_hash_delete (without_keys h ks) (RSymbol k) = without_keys h (ks @ [k])"
  by (auto simp: rb_hash_delete_def without_keys_def intro: filter_cong)

lemma map_of_filter_key: "P k \<Longrightarrow> map_of (filter (\<lambda>e. P (fst e)) h) k = map_of h k"
  by (induction h) auto

lemma lookup_without_keys:
  "k \<notin> set ks \<Longrightarrow> rb_hash_lookup2 (without_keys h ks) (RSymbol k) Qundef = lookup_slot h k"
  unfolding rb_hash_lookup2_def lookup_slot_def without_keys_def
  by (subst map_of_filter_key) auto

lemma lookup_slot_lookup2: "rb_hash_lookup2 h (RSymbol k) Qundef = lookup_slot h k"
  by (simp add: rb_hash_lookup2_def lookup_slot_def)

lemma lookup_slot_Qundef: "lookup_slot h k = Qundef \<longleftrightarrow> \<not> has_key h k"
  by (auto simp: lookup_slot_def has_key_def map_of_eq_None_iff[symmetric] simp del: map_of_eq_None_iff split: option.splits)

lemma filled_0: "filled h table buf 0 = buf"
  by (simp add: filled_def map_nth)

lemma length_filled: "length (filled h table buf p) = length buf"
  by (simp add: filled_def)

lemma filled_Suc:
  "p < length buf \<Longrightarrow> (filled h table buf p)[p := lookup_slot h (table ! p)] = filled h table buf (Suc p)"
  by (rule nth_equalityI) (auto simp: filled_def nth_list_update less_Suc_eq)

lemma after_slots_0: "after_slots h vs table 0 = \<lparr>kw_hash = Some h, kw_values = vs\<rparr>"
  by (simp add: after_slots_def without_keys_Nil filled_0 split: option.splits)

lemma extract_slot_after:
  assumes "p < length table" and "distinct table"
    and "\<And>buf. vs = Some buf \<Longrightarrow> p < length buf"
  shows "extract_slot table (int p) (after_slots h vs table p) =
           (after_slots h vs table (Suc p), Inr (lookup_slot h (table ! p)))"
proof (cases vs)
  case None
  then show ?thesis
    using assms(1)
    by (simp add: extract_slot_def array_at_nat rb_tr_extract_keyword_def after_slots_def
        lookup_slot_lookup2)
next
  case (Some buf)
  have notin: "table ! p \<notin> set (take p table)"
    using assms(1,2) by (auto simp: in_set_conv_nth distinct_conv_nth)
  have tk: "take (Suc p) table = take p table @ [table ! p]"
    using assms(1) by (simp add: take_Suc_conv_app_nth)
  from Some assms(3) have pb: "p < length buf" by simp
  show ?thesis
    using assms(1) pb notin
    by (simp add: Some extract_slot_def array_at_nat rb_tr_extract_keyword_def after_slots_def
        store_value_def length_filled lookup_without_keys delete_without_keys tk filled_Suc)
qed

lemma required_loop_advance:
  assumes "R \<le> length table" and "distinct table"
    and "\<And>buf. vs = Some buf \<Longrightarrow> R \<le> length buf"
    and "p \<le> R" and "\<And>i. i < p \<Longrightarrow> has_key h (table ! i)"
  shows "required_loop table (int R) 0 0 (after_slots h vs table 0) =
         required_loop table (int R) (int p) (int p) (after_slots h vs table p)"
  using assms(4,5)
proof (induction p)
  case 0
  show ?case by simp
next
  case (Suc p)
  have slot: "extract_slot table (int p) (after_slots h vs table p) =
           (after_slots h vs table (Suc p), Inr (lookup_slot h (table ! p)))"
    using Suc.prems(1) assms(1-3) by (intro extract_slot_after) fastforce+
  have "lookup_slot h (table ! p) \<noteq> Qundef"
    using Suc.prems(2)[of p] by (simp add: lookup_slot_Qundef)
  then have "required_loop table (int R) (int p) (int p) (after_slots h vs table p) =
        required_loop table (int R) (int (Suc p)) (int (Suc p)) (after_slots h vs table (Suc p))"
    using Suc.prems(1)
    by (subst required_loop.simps) (simp add: slot add.commute)
  with Suc show ?case by simp
qed

lemma required_loop_all:
  assumes "R \<le> length table" and "distinct table"
    and "\<And>buf. vs = Some buf \<Longrightarrow> R \<le> length buf"
    and "\<And>i. i < R \<Longrightarrow> has_key h (table ! i)"
  shows "required_loop table (int R) 0 0 \<lparr>kw_hash = Some h, kw_values = vs\<rparr> =
         (after_slots h vs table R, Inr (int R))"
proof -
  have "required_loop table (int R) 0 0 (after_slots h vs table 0) =
         required_loop table (int R) (int R) (int R) (after_slots h vs table R)"
    using assms by (intro required_loop_advance) auto
  then show ?thesis
    by (simp add: after_slots_0 required_loop.simps[of _ _ "int R"])
qed

lemma required_loop_missing:
  assumes "R \<le> length table" and "distinct table"
    and "\<And>buf. vs = Some buf \<Longrightarrow> R \<le> length buf"
    and "n < R" and "\<And>i. i < n \<Longrightarrow> has_key h (table ! i)" and "\<not> has_key h (table ! n)"
  shows "required_loop table (int R) 0 0 \<lparr>kw_hash = Some h, kw_values = vs\<rparr> =
         (after_slots h vs table (Suc n),
          Inl (rb_keyword_error ''missing'' [RSymbol (table ! n)]))"
proof -
  have adv: "required_loop table (int R) 0 0 (after_slots h vs table 0) =
         required_loop table (int R) (int n) (int n) (after_slots h vs table n)"
    using assms by (intro required_loop_advance) auto
  have slot: "extract_slot table (int n) (after_slots h vs table n) =
           (after_slots h vs table (Suc n), Inr (lookup_slot h (table ! n)))"
    using assms(1-4) by (intro extract_slot_after) fastforce+
  have "lookup_slot h (table ! n) = Qundef"
    using assms(6) by (simp add: lookup_slot_Qundef)
  then have "required_loop table (int R) (int n) (int n) (after_slots h vs table n) =
      (after_slots h vs table (Suc n),
          Inl (rb_keyword_error ''missing'' [RSymbol (table ! n)]))"
    using assms(4) by (subst required_loop.simps) (simp add: slot)
  with adv show ?thesis by (simp add: after_slots_0)
qed

lemma present_count_snoc: "present_count h (ks @ [k]) = present_count h ks + (if has_key h k then 1 else 0)"
  by (simp add: present_count_def)

lemma optional_loop_advance:
  assumes "L \<le> length table" and "distinct table"
    and "\<And>buf. vs = Some buf \<Longrightarrow> L \<le> length buf"
    and "R \<le> p" and "p \<le> L"
  shows "optional_loop table (int L) (int R) e (after_slots h vs table R) =
         optional_loop table (int L) (int p)
           (e + int (present_count h (take (p - R) (drop R table)))) (after_slots h vs table p)"
  using assms(4,5)
proof (induction p)
  case 0
  then show ?case by (simp add: present_count_def)
next
  case (Suc p)
  show ?case
  proof (cases "R = Suc p")
    case True
    then show ?thesis by (simp add: present_count_def)
  next
    case False
    with Suc.prems have Rp: "R \<le> p" and pL: "p < L" by simp_all
    have slot: "extract_slot table (int p) (after_slots h vs table p) =
           (after_slots h vs table (Suc p), Inr (lookup_slot h (table ! p)))"
      using pL assms(1-3) by (intro extract_slot_after) fastforce+
    have tk: "take (Suc p - R) (drop R table) = take (p - R) (drop R table) @ [table ! p]"
      using Rp pL assms(1) by (simp add: Suc_diff_le take_Suc_conv_app_nth)
    have "optional_loop table (int L) (int p)
           (e + int (present_count h (take (p - R) (drop R table)))) (after_slots h vs table p) =
          optional_loop table (int L) (int (Suc p))
           (e + int (present_count h (take (Suc p - R) (drop R table)))) (after_slots h vs table (Suc p))"
      using pL
      by (subst optional_loop.simps)
         (simp add: slot tk present_count_snoc lookup_slot_Qundef ac_simps)
    with Suc.IH Rp pL show ?thesis by simp
  qed
qed

lemma optional_loop_all:
  assumes "R + O' = length table" and "distinct table"
    and "\<And>buf. vs = Some buf \<Longrightarrow> R + O' \<le> length buf"
  shows "optional_loop table (int (R + O')) (int R) e (after_slots h vs table R) =
         (after_slots h vs table (R + O'), Inr (e + int (present_count h (drop R table))))"
proof -
  have "optional_loop table (int (R + O')) (int R) e (after_slots h vs table R) =
         optional_loop table (int (R + O')) (int (R + O'))
           (e + int (present_count h (take (R + O' - R) (drop R table))))
           (after_slots h vs table (R + O'))"
    using assms by (intro optional_loop_advance) auto
  moreover have "take (R + O' - R) (drop R table) = drop R table"
    using assms(1) by simp
  ultimately show ?thesis
    by (simp add: optional_loop.simps[of _ _ "int (R + O')"] del: of_nat_add)
qed

lemma tail_fill_buffer:
  assumes "L \<le> length buf" and "i \<le> L"
  shows "tail_fill (int L) (int i) \<lparr>kw_hash = hh, kw_values = Some buf\<rparr> =
         (\<lparr>kw_hash = hh, kw_values = Some (tail_filled buf i L)\<rparr>, None)"
  using assms
proof (induction "L - i" arbitrary: i buf)
  case 0
  then have "tail_filled buf i L = buf"
    by (intro nth_equalityI) (auto simp: tail_filled_def)
  with 0 show ?case by (simp add: tail_fill.simps[of _ "int i"])
next
  case (Suc d)
  then have iL: "i < L" and d: "d = L - Suc i" by simp_all
  have "tail_filled (buf[i := Qundef]) (Suc i) L = tail_filled buf i L"
    using iL Suc.prems(1)
    by (intro nth_equalityI) (auto simp: tail_filled_def nth_list_update)
  moreover have "tail_fill (int L) (int (Suc i)) \<lparr>kw_hash = hh, kw_values = Some (buf[i := Qundef])\<rparr> =
         (\<lparr>kw_hash = hh, kw_values = Some (tail_filled (buf[i := Qundef]) (Suc i) L)\<rparr>, None)"
    using Suc.hyps(1)[OF d] iL Suc.prems(1) by simp
  ultimately show ?case
    using iL Suc.prems(1)
    by (subst tail_fill.simps) (simp add: store_value_def add.commute)
qed

lemma tail_fill_null:
  "kw_values s = None \<Longrightarrow>
   tail_fill limit i s = (s, if i < limit then Some NullWrite else None)"
  by (subst tail_fill.simps) (simp add: store_value_def)

lemma unknown_loop_advance:
  assumes "K \<le> length table" and "i \<le> K"
  shows "unknown_loop table (int K) (int i) (without_keys h (take i table)) =
         (without_keys h (take K table), None)"
  using assms
proof (induction "K - i" arbitrary: i)
  case 0
  then show ?case by (simp add: unknown_loop.simps[of _ _ "int i"])
next
  case (Suc d)
  then have iK: "i < K" and d: "d = K - Suc i" by simp_all
  have tk: "take (Suc i) table = take i table @ [table ! i]"
    using iK Suc.prems(1) by (simp add: take_Suc_conv_app_nth)
  have "unknown_loop table (int K) (int (Suc i)) (without_keys h (take (Suc i) table)) =
         (without_keys h (take K table), None)"
    using Suc.hyps(1)[OF d] iK Suc.prems(1) by simp
  then show ?case
    using iK Suc.prems(1)
    by (subst unknown_loop.simps) (simp add: array_at_nat delete_without_keys tk add.commute)
qed

lemma unknown_keyword_error_eq:
  assumes "K \<le> length table"
  shows "unknown_keyword_error h table (int K) =
         (without_keys h (take K table),
          rb_keyword_error ''unknown'' (map fst (without_keys h (take K table))))"
  using unknown_loop_advance[OF assms, of 0 h]
  by (simp add: unknown_keyword_error_def without_keys_Nil rb_hash_keys_def)

lemma keys_loop_symbols:
  assumes "i < length names"
  shows "keys_loop (map RSymbol names) (int i) msg = Inr (msg @ join_names (drop i names))"
  using assms
proof (induction "length names - i" arbitrary: i msg)
  case 0
  then show ?case by simp
next
  case (Suc d)
  show ?case
  proof (cases "Suc i < length names")
    case True
    then have d: "d = length names - Suc i" using Suc.hyps(2) by simp
    have dr: "drop i names = names ! i # drop (Suc i) names"
      using Suc.prems by (simp add: Cons_nth_drop_Suc)
    from True obtain y ys where "drop (Suc i) names = y # ys"
      by (cases "drop (Suc i) names") auto
    then have "join_names (drop i names) = names ! i @ '', '' @ join_names (drop (Suc i) names)"
      by (simp add: dr)
    moreover have "keys_loop (map RSymbol names) (int (Suc i)) (msg @ names ! i @ '', '') =
        Inr ((msg @ names ! i @ '', '') @ join_names (drop (Suc i) names))"
      using Suc.hyps(1)[OF d True] .
    ultimately show ?thesis
      using True Suc.prems
      by (subst keys_loop.simps) (simp add: array_at_nat add.commute)
  next
    case False
    with Suc.prems have "drop i names = [names ! i]"
      by (metis Cons_nth_drop_Suc drop_all not_less)
    then show ?thesis
      using False Suc.prems
      by (subst keys_loop.simps) (simp add: array_at_nat)
  qed
qed

lemma rb_keyword_error_new_symbols:
  "rb_keyword_error_new error (map RSymbol names) = Inr (ArgError (keyword_message error names))"
proof (cases "names = []")
  case True
  then show ?thesis by (simp add: rb_keyword_error_new_def keyword_message_def)
next
  case False
  then have "0 < length names" by simp
  from keys_loop_symbols[OF this] False show ?thesis
    by (simp add: rb_keyword_error_new_def keyword_message_def)
qed

lemma rb_keyword_error_symbols:
  "rb_keyword_error error (map RSymbol names) = Raised (ArgError (keyword_message error names))"
  by (simp add: rb_keyword_error_def rb_keyword_error_new_symbols)

lemma present_count_required:
  assumes "R \<le> length table" and "\<And>i. i < R \<Longrightarrow> has_key h (table ! i)"
  shows "present_count h (take R table) = R"
proof -
  have "\<forall>k \<in> set (take R table). has_key h k"
    using assms by (auto simp: in_set_conv_nth)
  then have "filter (has_key h) (take R table) = take R table"
    by (simp add: filter_id_conv)
  with assms(1) show ?thesis by (simp add: present_count_def)
qed

lemma present_count_split:
  "present_count h table = present_count h (take R table) + present_count h (drop R table)"
proof -
  have "present_count h (take R table @ drop R table) =
        present_count h (take R table) + present_count h (drop R table)"
    unfolding present_count_def filter_append length_append ..
  then show ?thesis by simp
qed

lemma present_count_card:
  assumes "distinct table"
  shows "present_count h table = card (set (map RSymbol table) \<inter> set (map fst h))"
proof -
  have "present_count h table = card ({k. has_key h k} \<inter> set table)"
    using assms by (simp add: present_count_def distinct_length_filter)
  also have "\<dots> = card (RSymbol ` ({k. has_key h k} \<inter> set table))"
    by (rule card_image[symmetric]) (simp add: inj_on_def)
  also have "RSymbol ` ({k. has_key h k} \<inter> set table) = set (map RSymbol table) \<inter> set (map fst h)"
    by (auto simp: has_key_def)
  finally show ?thesis .
qed

lemma schema_entries_card:
  assumes "distinct (map fst h)"
  shows "length (filter (\<lambda>e. fst e \<in> S) h) = card (S \<inter> set (map fst h))"
proof -
  have "length (filter (\<lambda>e. fst e \<in> S) h) = length (filter (\<lambda>k. k \<in> S) (map fst h))"
    by (simp add: filter_map comp_def)
  also have "\<dots> = card ({k. k \<in> S} \<inter> set (map fst h))"
    using assms by (rule distinct_length_filter)
  finally show ?thesis by simp
qed

lemma hash_size_split:
  assumes "distinct (map fst h)" and "distinct table"
  shows "length h = present_count h table + length (without_keys h table)"
proof -
  have "length h = length (filter (\<lambda>e. fst e \<in> set (map RSymbol table)) h) +
                   length (filter (\<lambda>e. \<not> fst e \<in> set (map RSymbol table)) h)"
    by (rule sum_length_filter_compl[symmetric])
  then show ?thesis
    using schema_entries_card[OF assms(1), of "set (map RSymbol table)"]
      present_count_card[OF assms(2), of h]
    by (simp add: without_keys_def)
qed

lemma without_keys_idem: "without_keys (without_keys h ks) ks = without_keys h ks"
  by (simp add: without_keys_def)

lemma without_keys_absent:
  "\<not> has_key h k \<Longrightarrow> without_keys h (ks @ [k]) = without_keys h ks"
  by (force simp: without_keys_def has_key_def intro!: filter_cong)

lemma decode_optional_encoded:
  "decode_optional (if rest then - 1 - int O' else int O') = (rest, int O')"
  by (simp add: decode_optional_def)

lemma int_add_nat:
  "int R + int O' \<le> INT_MAX \<Longrightarrow> int_add (int R) (int O') = Some (int (R + O'))"
  by (simp add: int_add_def INT_MIN_def)

lemma unsigned_int_nat: "int n \<le> INT_MAX \<Longrightarrow> unsigned_int (int n) = int n"
  by (simp add: unsigned_int_def INT_MAX_def)

lemma present_count_Nil: "present_count h [] = 0"
  by (simp add: present_count_def)

lemma present_count_le: "present_count h ks \<le> length ks"
  by (simp add: present_count_def)

lemma optional_pass_all_required:
  assumes len: "length table = R + O'" and dt: "distinct table"
    and vs: "\<And>buf. vs = Some buf \<Longrightarrow> length buf = R + O'"
    and req: "\<And>i. i < R \<Longrightarrow> has_key h (table ! i)"
    and bound: "int R + int O' \<le> INT_MAX"
  shows "optional_pass table (int R) (int O') (int R) (after_slots h vs table R) =
         (after_slots h vs table (R + O'), Inr (int (present_count h table)))"
proof -
  have pc: "present_count h table = R + present_count h (drop R table)"
    using present_count_split[of h table R] present_count_required[of R table h] len req by simp
  have hs: "kw_hash (after_slots h vs table R) \<noteq> None"
    by (simp add: after_slots_def split: option.splits)
  show ?thesis
  proof (cases "O' = 0")
    case True
    then show ?thesis
      using len pc by (simp add: optional_pass_def present_count_Nil)
  next
    case False
    have "optional_loop table (int (R + O')) (int R) (int R) (after_slots h vs table R) =
         (after_slots h vs table (R + O'), Inr (int R + int (present_count h (drop R table))))"
      using len dt vs by (intro optional_loop_all) auto
    then show ?thesis
      using False hs by (simp add: optional_pass_def int_add_nat[OF bound] pc del: of_nat_add)
  qed
qed

lemma rest_check_all_required:
  assumes len: "length table = R + O'" and dt: "distinct table" and dh: "distinct (map fst h)"
    and bound: "int R + int O' \<le> INT_MAX"
  shows "rest_check table (int R) (int O') rest (int (present_count h table))
           (after_slots h vs table (R + O')) =
         (if \<not> rest \<and> without_keys h table \<noteq> []
          then ((after_slots h vs table (R + O'))\<lparr>kw_hash := Some (without_keys h table)\<rparr>,
                Some (rb_keyword_error ''unknown'' (map fst (without_keys h table))))
          else (after_slots h vs table (R + O'), None))"
proof -
  have K: "R + O' \<le> length table" and tk: "take (R + O') table = table"
    using len by simp_all
  have pc: "int (present_count h table) \<le> INT_MAX"
    using present_count_le[of h table] len bound by simp
  have size: "int (length h) > int (present_count h table) \<longleftrightarrow> without_keys h table \<noteq> []"
    using hash_size_split[OF dh dt] by auto
  show ?thesis
  proof (cases vs)
    case None
    then show ?thesis
      using size unknown_keyword_error_eq[OF K, of h]
      by (simp add: rest_check_def after_slots_def RHASH_SIZE_def unsigned_int_nat[OF pc]
          int_add_nat[OF bound] tk del: of_nat_add)
  next
    case (Some buf)
    then show ?thesis
      using unknown_keyword_error_eq[OF K, of "without_keys h table"]
      by (simp add: rest_check_def after_slots_def RHASH_SIZE_def unsigned_int_def
          int_add_nat[OF bound] tk without_keys_idem del: of_nat_add)
  qed
qed

lemma rb_get_kwargs_all_required:
  assumes len: "length table = R + O'" and dt: "distinct table" and dh: "distinct (map fst h)"
    and vs: "\<And>buf. vs = Some buf \<Longrightarrow> length buf = R + O'"
    and req: "\<And>i. i < R \<Longrightarrow> has_key h (table ! i)"
    and bound: "int R + int O' \<le> INT_MAX"
  shows "rb_get_kwargs \<lparr>kw_hash = Some h, kw_values = vs\<rparr> table (int R)
           (if rest then - 1 - int O' else int O') =
         (if \<not> rest \<and> without_keys h table \<noteq> []
          then ((after_slots h vs table (R + O'))\<lparr>kw_hash := Some (without_keys h table)\<rparr>,
                Inl (rb_keyword_error ''unknown'' (map fst (without_keys h table))))
          else (case vs of
                  None \<Rightarrow>
                    (\<lparr>kw_hash = Some h, kw_values = None\<rparr>,
                     if present_count h table < R + O' then Inl NullWrite
                     else Inr (int (present_count h table)))
                | Some buf \<Rightarrow>
                    (\<lparr>kw_hash = Some (without_keys h table),
                      kw_values = Some (tail_filled (filled h table buf (R + O'))
                                          (present_count h table) (R + O'))\<rparr>,
                     Inr (int (present_count h table)))))"
proof -
  have required: "required_loop table (int R) 0 0 \<lparr>kw_hash = Some h, kw_values = vs\<rparr> =
         (after_slots h vs table R, Inr (int R))"
    using len dt vs req by (intro required_loop_all) auto
  note passes = required optional_pass_all_required[OF len dt vs req bound]
  note rest_check = rest_check_all_required[OF len dt dh bound, where vs = vs]
  have pc: "present_count h table \<le> R + O'"
    using present_count_le[of h table] len by simp
  have chain: "rb_get_kwargs \<lparr>kw_hash = Some h, kw_values = vs\<rparr> table (int R)
           (if rest then - 1 - int O' else int O') =
         (if \<not> rest \<and> without_keys h table \<noteq> []
          then ((after_slots h vs table (R + O'))\<lparr>kw_hash := Some (without_keys h table)\<rparr>,
                Inl (rb_keyword_error ''unknown'' (map fst (without_keys h table))))
          else (case tail_fill (int (R + O')) (int (present_count h table))
                       (after_slots h vs table (R + O')) of
                  (s4, Some f) \<Rightarrow> (s4, Inl f)
                | (s4, None) \<Rightarrow> (s4, Inr (int (present_count h table)))))"
    unfolding rb_get_kwargs_def decode_optional_encoded
    by (simp add: passes rest_check int_add_nat[OF bound] del: of_nat_add)
  show ?thesis
  proof (cases vs)
    case None
    have "tail_fill (int (R + O')) (int (present_count h table)) (after_slots h vs table (R + O')) =
            (\<lparr>kw_hash = Some h, kw_values = None\<rparr>,
             if present_count h table < R + O' then Some NullWrite else None)"
      unfolding None by (subst tail_fill_null) (simp_all add: after_slots_def)
    then show ?thesis
      unfolding chain by (simp add: None)
  next
    case (Some buf)
    have "tail_fill (int (R + O')) (int (present_count h table))
               \<lparr>kw_hash = Some (without_keys h table), kw_values = Some (filled h table buf (R + O'))\<rparr> =
            (\<lparr>kw_hash = Some (without_keys h table),
              kw_values = Some (tail_filled (filled h table buf (R + O')) (present_count h table) (R + O'))\<rparr>,
             None)"
      using vs[OF Some] pc by (intro tail_fill_buffer) (simp_all add: length_filled)
    moreover have "after_slots h vs table (R + O') =
         \<lparr>kw_hash = Some (without_keys h table), kw_values = Some (filled h table buf (R + O'))\<rparr>"
      using len by (simp add: Some after_slots_def)
    ultimately have "tail_fill (int (R + O')) (int (present_count h table)) (after_slots h vs table (R + O')) =
            (\<lparr>kw_hash = Some (without_keys h table),
              kw_values = Some (tail_filled (filled h table buf (R + O')) (present_count h table) (R + O'))\<rparr>,
             None)"
      by simp
    then show ?thesis
      unfolding chain by (simp add: Some)
  qed
qed

lemma symbols_names:
  "\<forall>k \<in> set ks. is_symbol k \<Longrightarrow> map RSymbol (map rb_sym2str ks) = ks"
proof (induction ks)
  case Nil
  show ?case by simp
next
  case (Cons k ks)
  then show ?case by (cases k) simp_all
qed

lemma keys_loop_prefix:
  "keys_loop keys i msg = Inr m \<Longrightarrow> \<exists>sfx. m = msg @ sfx"
proof (induction keys i msg rule: keys_loop.induct)
  case (1 keys i msg)
  from "1.prems" show ?case
    by (subst (asm) keys_loop.simps)
       (auto split: option.splits obj.splits if_splits dest!: "1.IH")
qed

lemma keys_loop_fault:
  "keys_loop keys i msg = Inl f \<Longrightarrow> f = OutOfBounds \<or> f = Raised TypeError"
proof (induction keys i msg rule: keys_loop.induct)
  case (1 keys i msg)
  from "1.prems" show ?case
    by (subst (asm) keys_loop.simps)
       (auto split: option.splits obj.splits if_splits dest!: "1.IH")
qed

lemma rb_keyword_error_prefix:
  assumes "rb_keyword_error kind keys = Raised (ArgError m)"
  shows "\<exists>sfx. m = kind @ '' keyword'' @ sfx"
proof (cases "keys = []")
  case True
  with assms show ?thesis
    by (auto simp: rb_keyword_error_def rb_keyword_error_new_def)
next
  case False
  show ?thesis
  proof (cases "keys_loop keys 0
      (kind @ '' keyword'' @ take (if int (length keys) > 1 then 1 else 0) ''s'' @ '': '')")
    case (Inl f)
    with assms False keys_loop_fault[OF Inl] show ?thesis
      by (auto simp: rb_keyword_error_def rb_keyword_error_new_def Let_def)
  next
    case (Inr m')
    from keys_loop_prefix[OF Inr] obtain sfx where "m' = (kind @ '' keyword'' @
        take (if int (length keys) > 1 then 1 else 0) ''s'' @ '': '') @ sfx"
      by blast
    with assms False Inr show ?thesis
      by (auto simp: rb_keyword_error_def rb_keyword_error_new_def Let_def)
  qed
qed

lemma unknown_error_not_missing:
  "\<not> is_missing_keyword (Inl (rb_keyword_error ''unknown'' keys))"
proof (cases "rb_keyword_error ''unknown'' keys")
  case (Raised e)
  show ?thesis
  proof (cases e)
    case (ArgError m)
    from rb_keyword_error_prefix[OF Raised[unfolded ArgError]]
    show ?thesis by (auto simp: is_missing_keyword_def Raised ArgError)
  qed (simp add: is_missing_keyword_def Raised)
qed (simp_all add: is_missing_keyword_def)

lemma missing_error_not_unknown:
  "\<not> is_unknown_keyword (Inl (rb_keyword_error ''missing'' keys))"
proof (cases "rb_keyword_error ''missing'' keys")
  case (Raised e)
  show ?thesis
  proof (cases e)
    case (ArgError m)
    from rb_keyword_error_prefix[OF Raised[unfolded ArgError]]
    show ?thesis by (auto simp: is_unknown_keyword_def Raised ArgError)
  qed (simp add: is_unknown_keyword_def Raised)
qed (simp_all add: is_unknown_keyword_def)

lemma unknown_symbols_is_unknown:
  "is_unknown_keyword (Inl (Raised (ArgError (keyword_message ''unknown'' names))))"
  by (simp add: is_unknown_keyword_def keyword_message_def)

lemma extract_slot_probe:
  "kw_values s = None \<Longrightarrow>
   \<exists>x. extract_slot table n s = (s, x) \<and> (\<forall>e. x \<noteq> Inl (Raised e))"
  by (auto simp: extract_slot_def rb_tr_extract_keyword_def split: option.splits)

lemma required_loop_probe:
  "kw_values s = None \<Longrightarrow>
   \<exists>x. required_loop table required n e s = (s, x) \<and> \<not> is_unknown_keyword x"
proof (induction table required n e s rule: required_loop.induct)
  case (1 table required n extracted s)
  from extract_slot_probe[OF "1.prems", of table n]
  obtain x where x: "extract_slot table n s = (s, x)" "\<forall>e. x \<noteq> Inl (Raised e)"
    by blast
  show ?case
  proof (cases "n < required")
    case False
    then show ?thesis
      by (subst required_loop.simps) (simp add: is_unknown_keyword_def)
  next
    case True
    show ?thesis
    proof (cases x)
      case (Inl f)
      with x(2) have "\<not> is_unknown_keyword (Inl f)"
        by (cases f) (simp_all add: is_unknown_keyword_def)
      with True x(1) Inl show ?thesis
        by (subst required_loop.simps) simp
    next
      case (Inr val)
      show ?thesis
      proof (cases "val = Qundef")
        case True
        with \<open>n < required\<close> x(1) Inr show ?thesis
          by (subst required_loop.simps) (simp add: missing_error_not_unknown)
      next
        case False
        from "1.IH"[OF True x(1)[symmetric] Inr False "1.prems"]
        obtain y where "required_loop table required (n + 1) (extracted + 1) s = (s, y)"
          "\<not> is_unknown_keyword y" by blast
        with True x(1) Inr False show ?thesis
          by (subst required_loop.simps) simp
      qed
    qed
  qed
qed

lemma optional_loop_probe:
  "kw_values s = None \<Longrightarrow>
   \<exists>x. optional_loop table limit m e s = (s, x) \<and> \<not> is_unknown_keyword x \<and> \<not> is_missing_keyword x"
proof (induction table limit m e s rule: optional_loop.induct)
  case (1 table limit m extracted s)
  from extract_slot_probe[OF "1.prems", of table m]
  obtain x where x: "extract_slot table m s = (s, x)" "\<forall>e. x \<noteq> Inl (Raised e)"
    by blast
  show ?case
  proof (cases "m < limit")
    case False
    then show ?thesis
      by (subst optional_loop.simps) (simp add: is_unknown_keyword_def is_missing_keyword_def)
  next
    case True
    show ?thesis
    proof (cases x)
      case (Inl f)
      with x(2) have "\<not> is_unknown_keyword (Inl f) \<and> \<not> is_missing_keyword (Inl f)"
        by (cases f) (simp_all add: is_unknown_keyword_def is_missing_keyword_def)
      with True x(1) Inl show ?thesis
        by (subst optional_loop.simps) simp
    next
      case (Inr val)
      from "1.IH"[OF True x(1)[symmetric] Inr "1.prems"]
      obtain y where "optional_loop table limit (m + 1)
          (if val \<noteq> Qundef then extracted + 1 else extracted) s = (s, y)"
        "\<not> is_unknown_keyword y" "\<not> is_missing_keyword y" by blast
      with True x(1) Inr show ?thesis
        by (subst optional_loop.simps) simp
    qed
  qed
qed

lemma optional_pass_probe:
  assumes "kw_values s = None" and "int R + int O' \<le> INT_MAX"
  shows "\<exists>x. optional_pass table (int R) (int O') e s = (s, x) \<and>
             \<not> is_unknown_keyword x \<and> \<not> is_missing_keyword x"
proof (cases "int O' \<noteq> 0 \<and> kw_hash s \<noteq> None")
  case True
  from optional_loop_probe[OF assms(1), of table "int (R + O')" "int R" e]
  show ?thesis
    using True by (simp add: optional_pass_def int_add_nat[OF assms(2)] del: of_nat_add)
next
  case False
  then show ?thesis
    by (auto simp: optional_pass_def is_unknown_keyword_def is_missing_keyword_def)
qed

lemma rest_check_probe:
  assumes "kw_values s = None" and "length table = R + O'" and "int R + int O' \<le> INT_MAX"
  shows "rest_check table (int R) (int O') rest e s = (s, None) \<or>
         (\<exists>h. kw_hash s = Some h \<and>
              rest_check table (int R) (int O') rest e s =
              (s\<lparr>kw_hash := Some (without_keys h table)\<rparr>,
               Some (rb_keyword_error ''unknown'' (map fst (without_keys h table)))))"
proof (cases "kw_hash s")
  case None
  then show ?thesis by (simp add: rest_check_def)
next
  case (Some h)
  have "unknown_keyword_error h table (int (R + O')) =
         (without_keys h table, rb_keyword_error ''unknown'' (map fst (without_keys h table)))"
    using unknown_keyword_error_eq[of "R + O'" table h] assms(2) by simp
  then show ?thesis
    using Some assms(1)
    by (simp add: rest_check_def int_add_nat[OF assms(3)] del: of_nat_add)
qed

lemma rb_get_kwargs_probe:
  assumes "kw_values s = None" and "length table = R + O'" and "int R + int O' \<le> INT_MAX"
  shows "(\<exists>x. rb_get_kwargs s table (int R) (if rest then - 1 - int O' else int O') = (s, x) \<and>
              \<not> is_unknown_keyword x) \<or>
         (\<exists>h. kw_hash s = Some h \<and>
              rb_get_kwargs s table (int R) (if rest then - 1 - int O' else int O') =
              (s\<lparr>kw_hash := Some (without_keys h table)\<rparr>,
               Inl (rb_keyword_error ''unknown'' (map fst (without_keys h table)))))"
proof -
  from required_loop_probe[OF assms(1), of table "int R" 0 0]
  obtain x1 where r1: "required_loop table (int R) 0 0 s = (s, x1)"
    and u1: "\<not> is_unknown_keyword x1" by blast
  show ?thesis
  proof (cases x1)
    case (Inl f)
    with r1 u1 show ?thesis
      unfolding rb_get_kwargs_def decode_optional_encoded by simp
  next
    case e1: (Inr e1)
    from optional_pass_probe[OF assms(1,3), of table e1]
    obtain x2 where r2: "optional_pass table (int R) (int O') e1 s = (s, x2)"
      and u2: "\<not> is_unknown_keyword x2" by blast
    show ?thesis
    proof (cases x2)
      case (Inl f)
      with r1 e1 r2 u2 show ?thesis
        unfolding rb_get_kwargs_def decode_optional_encoded by simp
    next
      case e: (Inr e)
      have tf: "tail_fill (int (R + O')) e s =
          (s, if e < int (R + O') then Some NullWrite else None)"
        using assms(1) by (rule tail_fill_null)
      from rest_check_probe[OF assms, of rest e]
      show ?thesis
      proof
        assume "rest_check table (int R) (int O') rest e s = (s, None)"
        with r1 e1 r2 e tf have "\<exists>x. rb_get_kwargs s table (int R)
            (if rest then - 1 - int O' else int O') = (s, x) \<and> \<not> is_unknown_keyword x"
          unfolding rb_get_kwargs_def decode_optional_encoded
          by (simp add: int_add_nat[OF assms(3)] is_unknown_keyword_def del: of_nat_add)
        then show ?thesis ..
      next
        assume "\<exists>h. kw_hash s = Some h \<and>
              rest_check table (int R) (int O') rest e s =
              (s\<lparr>kw_hash := Some (without_keys h table)\<rparr>,
               Some (rb_keyword_error ''unknown'' (map fst (without_keys h table))))"
        with r1 e1 r2 e have "\<exists>h. kw_hash s = Some h \<and>
              rb_get_kwargs s table (int R) (if rest then - 1 - int O' else int O') =
              (s\<lparr>kw_hash := Some (without_keys h table)\<rparr>,
               Inl (rb_keyword_error ''unknown'' (map fst (without_keys h table))))"
          unfolding rb_get_kwargs_def decode_optional_encoded by auto
        then show ?thesis ..
      qed
    qed
  qed
qed

section \<open>The claims\<close>

subsection \<open>C1: a call that should succeed\<close>

text \<open>
  C1 fails on the code. Without a buffer, take the schema \<open>a\<close> (required), \<open>b\<close>
  (optional) with rest keys allowed and the mapping \<open>{a: 1, extra: 2}\<close>, which holds
  the required key, no optional key and one key outside the schema. The call should
  return 1; one key is extracted of two, and the last loop stores through the null
  \<^verbatim>\<open>values\<close> pointer instead. This is the unguarded store of C6.
\<close>

theorem probe_success_writes_through_null:
  "rb_get_kwargs
     \<lparr>kw_hash = Some [(RSymbol ''a'', RFixnum 1), (RSymbol ''extra'', RFixnum 2)],
      kw_values = None\<rparr>
     [''a'', ''b''] 1 (- 2) =
   (\<lparr>kw_hash = Some [(RSymbol ''a'', RFixnum 1), (RSymbol ''extra'', RFixnum 2)],
      kw_values = None\<rparr>,
    Inl NullWrite)"
  by code_simp

text \<open>
  With a buffer the property holds. Take a schema of \<open>R\<close> required and \<open>O\<close> optional
  distinct keys, a buffer of \<open>R + O\<close> slots and a mapping that holds every required key
  and, unless rest keys are allowed, no key outside the schema. Then the call returns
  \<open>R\<close> plus the number of optional keys present, the slot of every absent optional key
  holds \<^verbatim>\<open>Qundef\<close>, and the mapping is left with exactly its entries whose key is outside
  the schema, in their order: no schema key remains and no other entry is touched.
\<close>

theorem extract_success:
  assumes "length table = R + O'" and "distinct table" and "distinct (map fst h)"
    and "length buf = R + O'" and "int R + int O' \<le> INT_MAX"
    and "\<forall>i<R. has_key h (table ! i)"
    and "rest \<or> set (map fst h) \<subseteq> set (map RSymbol table)"
  shows "\<exists>buf'.
           rb_get_kwargs \<lparr>kw_hash = Some h, kw_values = Some buf\<rparr> table (int R)
             (if rest then - 1 - int O' else int O') =
           (\<lparr>kw_hash = Some (without_keys h table), kw_values = Some buf'\<rparr>,
            Inr (int R + int (present_count h (drop R table)))) \<and>
           length buf' = R + O' \<and>
           (\<forall>i. R \<le> i \<and> i < R + O' \<and> \<not> has_key h (table ! i) \<longrightarrow> buf' ! i = Qundef)"
proof -
  let ?buf' = "tail_filled (filled h table buf (R + O')) (present_count h table) (R + O')"
  have extras: "rest \<or> without_keys h table = []"
    using assms(7) by (auto simp: without_keys_def filter_empty_conv)
  have pc: "present_count h table = R + present_count h (drop R table)"
    using present_count_split[of h table R] present_count_required[of R table h] assms(1,6)
    by simp
  have "rb_get_kwargs \<lparr>kw_hash = Some h, kw_values = Some buf\<rparr> table (int R)
             (if rest then - 1 - int O' else int O') =
           (\<lparr>kw_hash = Some (without_keys h table), kw_values = Some ?buf'\<rparr>,
            Inr (int (present_count h table)))"
    using extras assms(4,6)
    by (subst rb_get_kwargs_all_required[OF assms(1,2,3) _ _ assms(5)]) auto
  moreover have "length ?buf' = R + O'"
    using assms(4) by (simp add: tail_filled_def filled_def)
  moreover have "\<forall>i. R \<le> i \<and> i < R + O' \<and> \<not> has_key h (table ! i) \<longrightarrow> ?buf' ! i = Qundef"
    using assms(4) by (auto simp: tail_filled_def filled_def lookup_slot_Qundef)
  ultimately show ?thesis
    by (intro exI[of _ ?buf']) (simp add: pc)
qed

theorem extract_success_witness:
  "(\<exists>buf'.
      rb_get_kwargs
        \<lparr>kw_hash = Some [(RSymbol ''name'', RString ''x'')], kw_values = Some [Obj RNil, Obj RNil]\<rparr>
        [''name'', ''age''] 1 1 =
      (\<lparr>kw_hash = Some [], kw_values = Some buf'\<rparr>, Inr 1) \<and>
      length buf' = 2 \<and> buf' ! 1 = Qundef) \<and>
   (\<exists>buf'.
      rb_get_kwargs
        \<lparr>kw_hash = Some [(RSymbol ''name'', RString ''x''), (RSymbol ''extra'', RFixnum 1)],
         kw_values = Some [Obj RNil]\<rparr>
        [''name''] 1 (- 1) =
      (\<lparr>kw_hash = Some [(RSymbol ''extra'', RFixnum 1)], kw_values = Some buf'\<rparr>, Inr 1))"
proof -
  from extract_success [of "[''name'', ''age'']" 1 1 "[(RSymbol ''name'', RString ''x'')]"
      "[Obj RNil, Obj RNil]" False]
  obtain buf' where
    "rb_get_kwargs
       \<lparr>kw_hash = Some [(RSymbol ''name'', RString ''x'')], kw_values = Some [Obj RNil, Obj RNil]\<rparr>
       [''name'', ''age''] 1 1 =
     (\<lparr>kw_hash = Some [], kw_values = Some buf'\<rparr>, Inr 1)"
    and "length buf' = 2"
    and "\<forall>i. 1 \<le> i \<and> i < 2 \<and> \<not> has_key [(RSymbol ''name'', RString ''x'')] ([''name'', ''age''] ! i)
           \<longrightarrow> buf' ! i = Qundef"
    by (auto simp: INT_MAX_def has_key_def without_keys_def present_count_def)
  moreover from this(3) have "buf' ! 1 = Qundef"
    by (simp add: has_key_def)
  moreover
  from extract_success [of "[''name'']" 1 0
      "[(RSymbol ''name'', RString ''x''), (RSymbol ''extra'', RFixnum 1)]" "[Obj RNil]" True]
  have "\<exists>buf'.
      rb_get_kwargs
        \<lparr>kw_hash = Some [(RSymbol ''name'', RString ''x''), (RSymbol ''extra'', RFixnum 1)],
         kw_values = Some [Obj RNil]\<rparr>
        [''name''] 1 (- 1) =
      (\<lparr>kw_hash = Some [(RSymbol ''extra'', RFixnum 1)], kw_values = Some buf'\<rparr>, Inr 1)"
    by (auto simp: INT_MAX_def has_key_def without_keys_def present_count_def)
  ultimately show ?thesis by blast
qed

subsection \<open>C2: the first missing required key\<close>

text \<open>
  C2. If the required key at index \<open>n\<close> is the first one that the mapping lacks, the
  call raises the missing-keyword error built from the one-element list of that key,
  with or without a buffer and whatever the optional count is; the mapping is then as it
  was (no buffer) or has lost the \<open>n\<close> required keys before it (with a buffer), so no
  optional key has been looked at and no other key deleted.
\<close>

theorem missing_required_keyword:
  assumes "R \<le> length table" and "distinct table"
    and "case vs of None \<Rightarrow> True | Some buf \<Rightarrow> R \<le> length buf"
    and "n < R" and "\<forall>i<n. has_key h (table ! i)" and "\<not> has_key h (table ! n)"
  shows "snd (rb_get_kwargs \<lparr>kw_hash = Some h, kw_values = vs\<rparr> table (int R) optional) =
           Inl (rb_keyword_error ''missing'' [RSymbol (table ! n)]) \<and>
         rb_keyword_error ''missing'' [RSymbol (table ! n)] =
           Raised (ArgError (''missing keyword: '' @ table ! n)) \<and>
         kw_hash (fst (rb_get_kwargs \<lparr>kw_hash = Some h, kw_values = vs\<rparr> table (int R) optional)) =
           Some (case vs of None \<Rightarrow> h | Some buf \<Rightarrow> without_keys h (take n table))"
proof -
  have "required_loop table (int R) 0 0 \<lparr>kw_hash = Some h, kw_values = vs\<rparr> =
         (after_slots h vs table (Suc n),
          Inl (rb_keyword_error ''missing'' [RSymbol (table ! n)]))"
    using assms by (intro required_loop_missing) auto
  then have r: "rb_get_kwargs \<lparr>kw_hash = Some h, kw_values = vs\<rparr> table (int R) optional =
      (after_slots h vs table (Suc n), Inl (rb_keyword_error ''missing'' [RSymbol (table ! n)]))"
    by (simp add: rb_get_kwargs_def split: prod.splits)
  have "take (Suc n) table = take n table @ [table ! n]"
    using assms(1,4) by (simp add: take_Suc_conv_app_nth)
  then have "kw_hash (after_slots h vs table (Suc n)) =
      Some (case vs of None \<Rightarrow> h | Some buf \<Rightarrow> without_keys h (take n table))"
    using assms(6) by (simp add: after_slots_def without_keys_absent split: option.splits)
  moreover have "rb_keyword_error ''missing'' [RSymbol (table ! n)] =
           Raised (ArgError (''missing keyword: '' @ table ! n))"
    using rb_keyword_error_symbols[of "''missing''" "[table ! n]"]
    by (simp add: keyword_message_def)
  ultimately show ?thesis by (simp add: r)
qed

theorem missing_required_keyword_witness:
  "snd (rb_get_kwargs
          \<lparr>kw_hash = Some [(RSymbol ''id'', RFixnum 1)], kw_values = Some [Obj RNil, Obj RNil]\<rparr>
          [''name'', ''id''] 2 0) =
     Inl (Raised (ArgError ''missing keyword: name'')) \<and>
   kw_hash (fst (rb_get_kwargs
          \<lparr>kw_hash = Some [(RSymbol ''id'', RFixnum 1)], kw_values = Some [Obj RNil, Obj RNil]\<rparr>
          [''name'', ''id''] 2 0)) =
     Some [(RSymbol ''id'', RFixnum 1)]"
  using missing_required_keyword [of 2 "[''name'', ''id'']" "Some [Obj RNil, Obj RNil]" 0
      "[(RSymbol ''id'', RFixnum 1)]" 0]
  by (simp add: has_key_def without_keys_def)

subsection \<open>C3: unknown keywords\<close>

text \<open>
  C3. For a mapping with symbol keys that holds every required key, with or without a
  buffer, the call raises the unknown-keyword error exactly when rest keys are not
  allowed and some key of the mapping is outside the schema. The error is then built
  from the keys that remain, in the order of the mapping, once every schema key is
  deleted, and the mapping is left with those entries.
\<close>

theorem unknown_keyword_iff:
  assumes "length table = R + O'" and "distinct table" and "distinct (map fst h)"
    and "case vs of None \<Rightarrow> True | Some buf \<Rightarrow> length buf = R + O'"
    and "int R + int O' \<le> INT_MAX"
    and "\<forall>i<R. has_key h (table ! i)"
    and "\<forall>k \<in> set (map fst h). is_symbol k"
  shows "(is_unknown_keyword
            (snd (rb_get_kwargs \<lparr>kw_hash = Some h, kw_values = vs\<rparr> table (int R)
                    (if rest then - 1 - int O' else int O')))
          \<longleftrightarrow> \<not> rest \<and> \<not> set (map fst h) \<subseteq> set (map RSymbol table)) \<and>
         (\<not> rest \<and> \<not> set (map fst h) \<subseteq> set (map RSymbol table) \<longrightarrow>
            snd (rb_get_kwargs \<lparr>kw_hash = Some h, kw_values = vs\<rparr> table (int R)
                   (if rest then - 1 - int O' else int O')) =
              Inl (rb_keyword_error ''unknown'' (map fst (without_keys h table))) \<and>
            rb_keyword_error ''unknown'' (map fst (without_keys h table)) =
              Raised (ArgError (keyword_message ''unknown''
                                  (map rb_sym2str (map fst (without_keys h table))))) \<and>
            kw_hash (fst (rb_get_kwargs \<lparr>kw_hash = Some h, kw_values = vs\<rparr> table (int R)
                            (if rest then - 1 - int O' else int O'))) =
              Some (without_keys h table))"
proof -
  let ?r = "rb_get_kwargs \<lparr>kw_hash = Some h, kw_values = vs\<rparr> table (int R)
              (if rest then - 1 - int O' else int O')"
  let ?extras = "without_keys h table"
  have vs: "\<And>buf. vs = Some buf \<Longrightarrow> length buf = R + O'"
    using assms(4) by simp
  have req: "\<And>i. i < R \<Longrightarrow> has_key h (table ! i)"
    using assms(6) by simp
  note all = rb_get_kwargs_all_required[OF assms(1,2,3) vs req assms(5), of vs rest]
  have cond: "?extras \<noteq> [] \<longleftrightarrow> \<not> set (map fst h) \<subseteq> set (map RSymbol table)"
    by (auto simp: without_keys_def filter_empty_conv)
  have "\<forall>k \<in> set (map fst ?extras). is_symbol k"
    using assms(7) by (auto simp: without_keys_def)
  then have names: "map RSymbol (map rb_sym2str (map fst ?extras)) = map fst ?extras"
    by (rule symbols_names)
  have err: "rb_keyword_error ''unknown'' (map fst ?extras) =
      Raised (ArgError (keyword_message ''unknown'' (map rb_sym2str (map fst ?extras))))"
    using rb_keyword_error_symbols[of "''unknown''" "map rb_sym2str (map fst ?extras)"]
    unfolding names .
  show ?thesis
  proof (cases "\<not> rest \<and> ?extras \<noteq> []")
    case True
    then have r: "?r = ((after_slots h vs table (R + O'))\<lparr>kw_hash := Some ?extras\<rparr>,
                Inl (rb_keyword_error ''unknown'' (map fst ?extras)))"
      using all by simp
    have "is_unknown_keyword (snd ?r)"
      unfolding r snd_conv err by (rule unknown_symbols_is_unknown)
    moreover have "snd ?r = Inl (rb_keyword_error ''unknown'' (map fst ?extras))"
      by (simp add: r)
    moreover have "kw_hash (fst ?r) = Some ?extras"
      by (simp add: r)
    ultimately show ?thesis
      using True cond err by simp
  next
    case False
    then have "\<not> is_unknown_keyword (snd ?r)"
      using all by (auto simp: is_unknown_keyword_def split: option.splits)
    with False cond show ?thesis by blast
  qed
qed

theorem unknown_keyword_iff_witness:
  "is_unknown_keyword
     (snd (rb_get_kwargs
             \<lparr>kw_hash = Some [(RSymbol ''name'', RString ''x''), (RSymbol ''extra'', RFixnum 1)],
              kw_values = None\<rparr>
             [''name''] 1 0)) \<and>
   snd (rb_get_kwargs
          \<lparr>kw_hash = Some [(RSymbol ''name'', RString ''x''), (RSymbol ''extra'', RFixnum 1)],
           kw_values = None\<rparr>
          [''name''] 1 0) =
     Inl (Raised (ArgError ''unknown keyword: extra'')) \<and>
   kw_hash (fst (rb_get_kwargs
          \<lparr>kw_hash = Some [(RSymbol ''name'', RString ''x''), (RSymbol ''extra'', RFixnum 1)],
           kw_values = None\<rparr>
          [''name''] 1 0)) =
     Some [(RSymbol ''extra'', RFixnum 1)] \<and>
   \<not> is_unknown_keyword
     (snd (rb_get_kwargs
             \<lparr>kw_hash = Some [(RSymbol ''name'', RString ''x''), (RSymbol ''extra'', RFixnum 1)],
              kw_values = Some [Obj RNil]\<rparr>
             [''name''] 1 (- 1)))"
  using unknown_keyword_iff [of "[''name'']" 1 0
      "[(RSymbol ''name'', RString ''x''), (RSymbol ''extra'', RFixnum 1)]" None False]
    unknown_keyword_iff [of "[''name'']" 1 0
      "[(RSymbol ''name'', RString ''x''), (RSymbol ''extra'', RFixnum 1)]" "Some [Obj RNil]" True]
  by (simp add: INT_MAX_def has_key_def without_keys_def keyword_message_def
      is_unknown_keyword_def)

subsection \<open>C4: the tail fill and the optional values\<close>

text \<open>
  C4 fails on the code. With the schema \<open>a\<close> (required), \<open>b\<close>, \<open>c\<close> (optional) and the
  mapping \<open>{a: 1, c: 3}\<close>, the optional pass stores 3 in slot 2 and counts two extracted
  keys; the last loop then stores \<^verbatim>\<open>Qundef\<close> in every slot from index 2 on, and slot 2
  has lost the value of \<open>c\<close> when the call returns 2.
\<close>

theorem tail_fill_overwrites_optional_value:
  "rb_get_kwargs
     \<lparr>kw_hash = Some [(RSymbol ''a'', RFixnum 1), (RSymbol ''c'', RFixnum 3)],
      kw_values = Some [Obj RNil, Obj RNil, Obj RNil]\<rparr>
     [''a'', ''b'', ''c''] 1 2 =
   (\<lparr>kw_hash = Some [], kw_values = Some [Obj (RFixnum 1), Qundef, Qundef]\<rparr>, Inr 2)"
  by code_simp

subsection \<open>C5: the mapping when there is no buffer\<close>

text \<open>
  C5, as amended. Without a buffer, the mapping is as it was when the call returns or
  raises the missing-keyword error; when the call raises the unknown-keyword error, every
  schema key has been deleted from the mapping and its other entries are as they were.
\<close>

theorem probe_mode_mapping:
  assumes "kw_values s = None" and "length table = R + O'" and "int R + int O' \<le> INT_MAX"
  shows "((\<exists>n. snd (rb_get_kwargs s table (int R) (if rest then - 1 - int O' else int O')) = Inr n) \<or>
          is_missing_keyword
            (snd (rb_get_kwargs s table (int R) (if rest then - 1 - int O' else int O')))
          \<longrightarrow> fst (rb_get_kwargs s table (int R) (if rest then - 1 - int O' else int O')) = s) \<and>
         (is_unknown_keyword
            (snd (rb_get_kwargs s table (int R) (if rest then - 1 - int O' else int O')))
          \<longrightarrow> (\<exists>h. kw_hash s = Some h \<and>
                  fst (rb_get_kwargs s table (int R) (if rest then - 1 - int O' else int O')) =
                    s\<lparr>kw_hash := Some (without_keys h table)\<rparr>))"
  using rb_get_kwargs_probe[OF assms, of rest] unknown_error_not_missing
  by auto

theorem probe_mode_mapping_witness:
  "is_unknown_keyword
     (snd (rb_get_kwargs
             \<lparr>kw_hash = Some [(RSymbol ''name'', RString ''x''), (RSymbol ''extra'', RFixnum 1)],
              kw_values = None\<rparr>
             [''name''] 1 0)) \<and>
   fst (rb_get_kwargs
          \<lparr>kw_hash = Some [(RSymbol ''name'', RString ''x''), (RSymbol ''extra'', RFixnum 1)],
           kw_values = None\<rparr>
          [''name''] 1 0) =
     \<lparr>kw_hash = Some [(RSymbol ''extra'', RFixnum 1)], kw_values = None\<rparr> \<and>
   snd (rb_get_kwargs \<lparr>kw_hash = Some [(RSymbol ''name'', RString ''x'')], kw_values = None\<rparr>
          [''name''] 1 0) = Inr 1 \<and>
   fst (rb_get_kwargs \<lparr>kw_hash = Some [(RSymbol ''name'', RString ''x'')], kw_values = None\<rparr>
          [''name''] 1 0) =
     \<lparr>kw_hash = Some [(RSymbol ''name'', RString ''x'')], kw_values = None\<rparr>"
proof -
  have "is_unknown_keyword
     (snd (rb_get_kwargs
             \<lparr>kw_hash = Some [(RSymbol ''name'', RString ''x''), (RSymbol ''extra'', RFixnum 1)],
              kw_values = None\<rparr>
             [''name''] 1 0))"
    by code_simp
  moreover have "snd (rb_get_kwargs
      \<lparr>kw_hash = Some [(RSymbol ''name'', RString ''x'')], kw_values = None\<rparr>
      [''name''] 1 0) = Inr 1"
    by code_simp
  ultimately show ?thesis
    using probe_mode_mapping [of
      "\<lparr>kw_hash = Some [(RSymbol ''name'', RString ''x''), (RSymbol ''extra'', RFixnum 1)],
        kw_values = None\<rparr>" "[''name'']" 1 0 False]
      probe_mode_mapping [of
      "\<lparr>kw_hash = Some [(RSymbol ''name'', RString ''x'')], kw_values = None\<rparr>"
      "[''name'']" 1 0 False]
    by (simp add: INT_MAX_def without_keys_def)
qed

text \<open>
  C5 as stated fails: without a buffer, the schema \<open>name\<close> and the mapping
  \<open>{name: "x", extra: 1}\<close> give the unknown-keyword error, and \<open>name\<close> is no longer in
  the mapping.
\<close>

theorem probe_mode_mutation_counterexample:
  "rb_get_kwargs
     \<lparr>kw_hash = Some [(RSymbol ''name'', RString ''x''), (RSymbol ''extra'', RFixnum 1)],
      kw_values = None\<rparr>
     [''name''] 1 0 =
   (\<lparr>kw_hash = Some [(RSymbol ''extra'', RFixnum 1)], kw_values = None\<rparr>,
    Inl (Raised (ArgError ''unknown keyword: extra''))) \<and>
   kw_hash (fst (rb_get_kwargs
     \<lparr>kw_hash = Some [(RSymbol ''name'', RString ''x''), (RSymbol ''extra'', RFixnum 1)],
      kw_values = None\<rparr>
     [''name''] 1 0)) \<noteq>
   Some [(RSymbol ''name'', RString ''x''), (RSymbol ''extra'', RFixnum 1)]"
  by code_simp

subsection \<open>C6: the tail fill without a buffer\<close>

text \<open>
  C6 fails on the code. Without a buffer, with the schema \<open>name\<close> (required), \<open>age\<close>
  (optional) and the mapping \<open>{name: "x"}\<close>, one key is extracted of two, and the last
  loop stores through the null \<^verbatim>\<open>values\<close> pointer.
\<close>

theorem tail_fill_writes_through_null:
  "rb_get_kwargs
     \<lparr>kw_hash = Some [(RSymbol ''name'', RString ''x'')], kw_values = None\<rparr>
     [''name'', ''age''] 1 1 =
   (\<lparr>kw_hash = Some [(RSymbol ''name'', RString ''x'')], kw_values = None\<rparr>, Inl NullWrite)"
  by code_simp

subsection \<open>C7: the negative optional count\<close>

text \<open>
  C7, as amended. When the optional count passed to \<^verbatim>\<open>rb_get_kwargs\<close> is negative, rest
  keys are allowed and the number of optional keywords is \<open>-1 - optional\<close>, that is the
  magnitude of the passed value minus one (so \<open>-1\<close> stands for no optional keyword and
  rest keys allowed).
\<close>

theorem negative_optional_decoding:
  "optional < 0 \<Longrightarrow> decode_optional optional = (True, \<bar>optional\<bar> - 1)"
  by (simp add: decode_optional_def)

theorem negative_optional_decoding_witness:
  "(- 3 :: int) < 0 \<and> decode_optional (- 3) = (True, 2)"
  using negative_optional_decoding [of "- 3"] by simp

text \<open>
  C7 as stated fails: for the passed value \<open>-1\<close> the number of optional keywords is 0,
  not the magnitude 1.
\<close>

theorem optional_magnitude_counterexample:
  "snd (decode_optional (- 1)) \<noteq> \<bar>- 1 :: int\<bar>"
  by (simp add: decode_optional_def)

subsection \<open>C8: the message of a keyword error\<close>

text \<open>
  C8. For a list of symbol keys, \<^verbatim>\<open>rb_keyword_error_new\<close> builds the argument error whose
  message is the kind (missing or unknown), the word keyword, an s exactly when there
  are at least two keys, and, unless the list is empty, a colon and the names of the keys
  in the order of the list, separated by a comma and a space; \<^verbatim>\<open>rb_keyword_error\<close>
  raises it.
\<close>

theorem keyword_error_message:
  "rb_keyword_error_new kind (map RSymbol names) = Inr (ArgError (keyword_message kind names))
   \<and> rb_keyword_error kind (map RSymbol names) = Raised (ArgError (keyword_message kind names))"
  by (simp add: rb_keyword_error_new_symbols rb_keyword_error_symbols)

theorem keyword_error_message_witness:
  "rb_keyword_error_new ''missing'' [RSymbol ''a''] = Inr (ArgError ''missing keyword: a'') \<and>
   rb_keyword_error_new ''unknown'' [RSymbol ''a'', RSymbol ''b''] =
     Inr (ArgError ''unknown keywords: a, b'') \<and>
   rb_keyword_error_new ''unknown'' [] = Inr (ArgError ''unknown keyword'')"
  using keyword_error_message [of "''missing''" "[''a'']"]
    keyword_error_message [of "''unknown''" "[''a'', ''b'']"]
    keyword_error_message [of "''unknown''" "[]"]
  by (simp add: keyword_message_def)

subsection \<open>C9: the buffer when a required key is missing\<close>

text \<open>
  C9. With a buffer, if the required key at index \<open>n\<close> is the first one that the
  mapping lacks, then when the missing-keyword error is raised the slots before \<open>n\<close>
  hold the values of their keys, which are no longer in the mapping, slot \<open>n\<close> holds
  \<^verbatim>\<open>Qundef\<close>, and every slot after \<open>n\<close> is as it was.
\<close>

theorem missing_required_buffer:
  assumes "R \<le> length table" and "distinct table" and "R \<le> length buf"
    and "n < R" and "\<forall>i<n. has_key h (table ! i)" and "\<not> has_key h (table ! n)"
  shows "\<exists>buf'.
           rb_get_kwargs \<lparr>kw_hash = Some h, kw_values = Some buf\<rparr> table (int R) optional =
           (\<lparr>kw_hash = Some (without_keys h (take n table)), kw_values = Some buf'\<rparr>,
            Inl (rb_keyword_error ''missing'' [RSymbol (table ! n)])) \<and>
           length buf' = length buf \<and>
           (\<forall>i<n. \<exists>v. map_of h (RSymbol (table ! i)) = Some v \<and> buf' ! i = Obj v) \<and>
           buf' ! n = Qundef \<and>
           (\<forall>i. n < i \<and> i < length buf \<longrightarrow> buf' ! i = buf ! i)"
proof -
  let ?buf' = "filled h table buf (Suc n)"
  have "required_loop table (int R) 0 0 \<lparr>kw_hash = Some h, kw_values = Some buf\<rparr> =
         (after_slots h (Some buf) table (Suc n),
          Inl (rb_keyword_error ''missing'' [RSymbol (table ! n)]))"
    using assms by (intro required_loop_missing) auto
  moreover have "take (Suc n) table = take n table @ [table ! n]"
    using assms(1,4) by (simp add: take_Suc_conv_app_nth)
  ultimately have "rb_get_kwargs \<lparr>kw_hash = Some h, kw_values = Some buf\<rparr> table (int R) optional =
      (\<lparr>kw_hash = Some (without_keys h (take n table)), kw_values = Some ?buf'\<rparr>,
       Inl (rb_keyword_error ''missing'' [RSymbol (table ! n)]))"
    using assms(6)
    by (simp add: rb_get_kwargs_def after_slots_def without_keys_absent split: prod.splits)
  moreover have "length ?buf' = length buf"
    by (simp add: length_filled)
  moreover have "\<forall>i<n. \<exists>v. map_of h (RSymbol (table ! i)) = Some v \<and> ?buf' ! i = Obj v"
  proof (intro allI impI)
    fix i assume "i < n"
    with assms(5) have "lookup_slot h (table ! i) \<noteq> Qundef"
      by (simp add: lookup_slot_Qundef)
    then obtain v where "map_of h (RSymbol (table ! i)) = Some v"
      by (auto simp: lookup_slot_def split: option.splits)
    with \<open>i < n\<close> assms(3,4) show "\<exists>v. map_of h (RSymbol (table ! i)) = Some v \<and> ?buf' ! i = Obj v"
      by (simp add: filled_def lookup_slot_def)
  qed
  moreover have "?buf' ! n = Qundef"
    using assms(3,4,6) by (simp add: filled_def lookup_slot_Qundef)
  moreover have "\<forall>i. n < i \<and> i < length buf \<longrightarrow> ?buf' ! i = buf ! i"
    by (simp add: filled_def)
  ultimately show ?thesis
    by (intro exI[of _ ?buf']) simp
qed

theorem missing_required_buffer_witness:
  "\<exists>buf'.
     rb_get_kwargs
       \<lparr>kw_hash = Some [(RSymbol ''a'', RFixnum 1), (RSymbol ''c'', RFixnum 3)],
        kw_values = Some [Obj RNil, Obj RNil, Obj (RString ''old'')]\<rparr>
       [''a'', ''b'', ''c''] 3 0 =
     (\<lparr>kw_hash = Some [(RSymbol ''c'', RFixnum 3)], kw_values = Some buf'\<rparr>,
      Inl (rb_keyword_error ''missing'' [RSymbol ''b''])) \<and>
     buf' ! 0 = Obj (RFixnum 1) \<and> buf' ! 1 = Qundef \<and> buf' ! 2 = Obj (RString ''old'')"
proof -
  from missing_required_buffer [of 3 "[''a'', ''b'', ''c'']"
      "[Obj RNil, Obj RNil, Obj (RString ''old'')]" 1
      "[(RSymbol ''a'', RFixnum 1), (RSymbol ''c'', RFixnum 3)]" 0]
  obtain buf' where
    "rb_get_kwargs
       \<lparr>kw_hash = Some [(RSymbol ''a'', RFixnum 1), (RSymbol ''c'', RFixnum 3)],
        kw_values = Some [Obj RNil, Obj RNil, Obj (RString ''old'')]\<rparr>
       [''a'', ''b'', ''c''] 3 0 =
     (\<lparr>kw_hash = Some [(RSymbol ''c'', RFixnum 3)], kw_values = Some buf'\<rparr>,
      Inl (rb_keyword_error ''missing'' [RSymbol ''b'']))"
    and "buf' ! 0 = Obj (RFixnum 1)" and "buf' ! 1 = Qundef"
    and "\<forall>i. 1 < i \<and> i < 3 \<longrightarrow> buf' ! i = [Obj RNil, Obj RNil, Obj (RString ''old'')] ! i"
    by (auto simp: has_key_def without_keys_def)
  moreover from this(4) have "buf' ! 2 = Obj (RString ''old'')"
    by (simp add: numeral_2_eq_2)
  ultimately show ?thesis by blast
qed

subsection \<open>C10: the null mapping and no required key\<close>

text \<open>
  C10. With no required key, a null mapping and a buffer of \<open>O\<close> slots, the call
  returns 0 and leaves \<^verbatim>\<open>Qundef\<close> in each of the \<open>O\<close> slots, whether rest keys are
  allowed or not.
\<close>

theorem null_mapping_no_required:
  assumes "length buf = O'" and "int O' \<le> INT_MAX"
  shows "rb_get_kwargs \<lparr>kw_hash = None, kw_values = Some buf\<rparr> table 0
           (if rest then - 1 - int O' else int O') =
         (\<lparr>kw_hash = None, kw_values = Some (replicate O' Qundef)\<rparr>, Inr 0)"
proof -
  have "tail_filled buf 0 O' = replicate O' Qundef"
    using assms(1) by (intro nth_equalityI) (auto simp: tail_filled_def)
  moreover have "tail_fill (int O') (int 0) \<lparr>kw_hash = None, kw_values = Some buf\<rparr> =
         (\<lparr>kw_hash = None, kw_values = Some (tail_filled buf 0 O')\<rparr>, None)"
    using assms(1) by (intro tail_fill_buffer) simp_all
  ultimately show ?thesis
    using assms(2)
    unfolding rb_get_kwargs_def decode_optional_encoded
    by (simp add: required_loop.simps[of _ 0 0] optional_pass_def rest_check_def
        int_add_def INT_MIN_def)
qed

theorem null_mapping_no_required_witness:
  "rb_get_kwargs \<lparr>kw_hash = None, kw_values = Some [Obj RNil, Obj (RFixnum 7)]\<rparr>
     [''a'', ''b''] 0 (- 3) =
   (\<lparr>kw_hash = None, kw_values = Some [Qundef, Qundef]\<rparr>, Inr 0)"
  using null_mapping_no_required [of "[Obj RNil, Obj (RFixnum 7)]" 2 "[''a'', ''b'']" True]
  by (simp add: INT_MAX_def numeral_2_eq_2)

end
